theory Spec2Isabelle
  imports Main
begin

section \<open>Python string primitives\<close>

text \<open>
  A Python \<^verbatim>\<open>str\<close> is modelled as a \<^typ>\<open>string\<close>: a list of characters, each one
  code point below 256.  \<open>is_space\<close> is \<^verbatim>\<open>str.isspace\<close> on one code point, which is
  also the class \<^verbatim>\<open>\s\<close> of \<^verbatim>\<open>re\<close> on \<^verbatim>\<open>str\<close> patterns: tab, newline, vertical tab,
  form feed, carriage return, the separators 0x1C to 0x1F, space, 0x85 and 0xA0.
\<close>

definition is_space :: "char \<Rightarrow> bool" where
  "is_space c \<longleftrightarrow> c \<in> set [CHR 0x09, CHR 0x0A, CHR 0x0B, CHR 0x0C, CHR 0x0D,
      CHR 0x1C, CHR 0x1D, CHR 0x1E, CHR 0x1F, CHR 0x20, CHR 0x85, CHR 0xA0]"

text \<open>The character class \<^verbatim>\<open>[A-Fa-f0-9]\<close>.\<close>

definition is_hex :: "char \<Rightarrow> bool" where
  "is_hex c \<longleftrightarrow> c \<in> set ''0123456789ABCDEFabcdef''"

text \<open>The character class \<^verbatim>\<open>[^\s\]]\<close>.\<close>

definition url_char :: "char \<Rightarrow> bool" where
  "url_char c \<longleftrightarrow> (if is_space c then False else c \<noteq> CHR '']'')"

text \<open>\<^verbatim>\<open>s.strip()\<close>: whitespace removed at both ends.\<close>

definition py_strip :: "string \<Rightarrow> string" where
  "py_strip s = rev (dropWhile is_space (rev (dropWhile is_space s)))"

text \<open>\<^verbatim>\<open>s.strip(chars)\<close> and \<^verbatim>\<open>s.rstrip(chars)\<close>.\<close>

definition strip_chars :: "string \<Rightarrow> string \<Rightarrow> string" where
  "strip_chars chars s =
     rev (dropWhile (\<lambda>c. c \<in> set chars) (rev (dropWhile (\<lambda>c. c \<in> set chars) s)))"

definition rstrip_chars :: "string \<Rightarrow> string \<Rightarrow> string" where
  "rstrip_chars chars s = rev (dropWhile (\<lambda>c. c \<in> set chars) (rev s))"

text \<open>\<^verbatim>\<open>s.split(sep)\<close> for a separator of one character: never the empty list.\<close>

fun split_on :: "char \<Rightarrow> string \<Rightarrow> string list" where
  "split_on sep [] = [[]]"
| "split_on sep (c # cs) =
     (if c = sep then [] # split_on sep cs
      else (case split_on sep cs of [] \<Rightarrow> [[c]] | w # ws \<Rightarrow> (c # w) # ws))"

text \<open>\<^verbatim>\<open>s.endswith(suf)\<close>.\<close>

definition ends_with :: "string \<Rightarrow> string \<Rightarrow> bool" where
  "ends_with suf s \<longleftrightarrow> (if length suf \<le> length s then drop (length s - length suf) s = suf else False)"

text \<open>
  A literal of a pattern matched at the head of the text: the rest of the text when
  the text starts with the literal.
\<close>

fun strip_prefix :: "string \<Rightarrow> string \<Rightarrow> string option" where
  "strip_prefix [] s = Some s"
| "strip_prefix (p # ps) [] = None"
| "strip_prefix (p # ps) (c # cs) = (if p = c then strip_prefix ps cs else None)"

section \<open>The matcher\<close>

text \<open>
  \<^verbatim>\<open>URL_REGEX = re.compile(r'(https?://[^\s\]]*?(?:packages/ota-api/package/[A-Fa-f0-9]+\.zip|payload\.(?:bin|zip))(?:\?[^\s\]]*)?)')\<close>

  Each part of the pattern is a function from the text at the current position to the
  text it matched and the text left, \<open>None\<close> when it fails.  The alternatives are tried
  in the pattern's order.  \<^verbatim>\<open>[A-Fa-f0-9]+\<close> is greedy and the next pattern character is a
  dot, which is no hex digit, so only the longest run of hex digits can be followed by
  a match.
\<close>

definition match_scheme :: "string \<Rightarrow> (string \<times> string) option" where
  "match_scheme s =
     (case strip_prefix ''http'' s of
        None \<Rightarrow> None
      | Some r \<Rightarrow>
          (case strip_prefix ''s://'' r of
             Some t \<Rightarrow> Some (''https://'', t)
           | None \<Rightarrow>
               (case strip_prefix ''://'' r of
                  Some t \<Rightarrow> Some (''http://'', t)
                | None \<Rightarrow> None)))"

definition match_package :: "string \<Rightarrow> (string \<times> string) option" where
  "match_package s =
     (case strip_prefix ''packages/ota-api/package/'' s of
        None \<Rightarrow> None
      | Some r \<Rightarrow>
          (if takeWhile is_hex r = [] then None
           else (case strip_prefix ''.zip'' (dropWhile is_hex r) of
                   None \<Rightarrow> None
                 | Some t \<Rightarrow>
                     Some (''packages/ota-api/package/'' @ takeWhile is_hex r @ ''.zip'', t))))"

definition match_payload :: "string \<Rightarrow> (string \<times> string) option" where
  "match_payload s =
     (case strip_prefix ''payload.'' s of
        None \<Rightarrow> None
      | Some r \<Rightarrow>
          (case strip_prefix ''bin'' r of
             Some t \<Rightarrow> Some (''payload.bin'', t)
           | None \<Rightarrow>
               (case strip_prefix ''zip'' r of
                  Some t \<Rightarrow> Some (''payload.zip'', t)
                | None \<Rightarrow> None)))"

definition match_target :: "string \<Rightarrow> (string \<times> string) option" where
  "match_target s =
     (case match_package s of Some x \<Rightarrow> Some x | None \<Rightarrow> match_payload s)"

text \<open>
  The lazy \<^verbatim>\<open>[^\s\]]*?\<close> followed by the alternation: the alternation is tried first,
  and one more character of the class is consumed only when it fails.
\<close>

fun lazy_then_target :: "string \<Rightarrow> (string \<times> string) option" where
  "lazy_then_target [] = match_target []"
| "lazy_then_target (c # cs) =
     (case match_target (c # cs) of
        Some x \<Rightarrow> Some x
      | None \<Rightarrow>
          (if url_char c
           then (case lazy_then_target cs of
                   None \<Rightarrow> None
                 | Some (m, r) \<Rightarrow> Some (c # m, r))
           else None))"

text \<open>The optional, greedy query \<^verbatim>\<open>(?:\?[^\s\]]*)?\<close>: the text it matched.\<close>

fun match_query :: "string \<Rightarrow> string" where
  "match_query [] = []"
| "match_query (c # cs) = (if c = CHR ''?'' then c # takeWhile url_char cs else [])"

text \<open>The whole pattern at the head of the text: group 1, which is the whole match.\<close>

definition match_at :: "string \<Rightarrow> string option" where
  "match_at s =
     (case match_scheme s of
        None \<Rightarrow> None
      | Some (scheme, r) \<Rightarrow>
          (case lazy_then_target r of
             None \<Rightarrow> None
           | Some (m, t) \<Rightarrow> Some (scheme @ m @ match_query t)))"

text \<open>
  \<^verbatim>\<open>[m.group(1) for m in URL_REGEX.finditer(line)]\<close>: the leftmost match, then the
  search goes on where that match ended.  A match is never empty (it starts with
  \<^verbatim>\<open>http\<close>), so it ends \<open>length m - 1\<close> characters after the first one.
\<close>

fun find_matches :: "string \<Rightarrow> string list" where
  "find_matches [] = []"
| "find_matches (c # cs) =
     (case match_at (c # cs) of
        None \<Rightarrow> find_matches cs
      | Some m \<Rightarrow> m # find_matches (drop (length m - 1) cs))"

text \<open>\<^verbatim>\<open>def sanitize_url(u): return u.strip().strip("]'\"")\<close>\<close>

definition sanitize_url :: "string \<Rightarrow> string" where
  "sanitize_url u = strip_chars [CHR '']'', CHR 0x27, CHR 0x22] (py_strip u)"

section \<open>The derived file name\<close>

text \<open>
  \<^verbatim>\<open>re.search(r'/package/([A-Fa-f0-9]+)\.zip(?:\?|$)', url)\<close>.  Without the MULTILINE
  flag \<^verbatim>\<open>$\<close> matches at the end of the text and before a newline that ends the text.
  \<open>hash_at\<close> is the pattern at the head of the text and gives group 1; \<open>hash_search\<close>
  tries every position from the left.
\<close>

fun at_query_or_end :: "string \<Rightarrow> bool" where
  "at_query_or_end [] = True"
| "at_query_or_end (c # cs) = (if c = CHR ''?'' then True else (c = CHR 0x0A \<and> cs = []))"

definition hash_at :: "string \<Rightarrow> string option" where
  "hash_at s =
     (case strip_prefix ''/package/'' s of
        None \<Rightarrow> None
      | Some r \<Rightarrow>
          (if takeWhile is_hex r = [] then None
           else (case strip_prefix ''.zip'' (dropWhile is_hex r) of
                   None \<Rightarrow> None
                 | Some t \<Rightarrow> if at_query_or_end t then Some (takeWhile is_hex r) else None)))"

fun hash_search :: "string \<Rightarrow> string option" where
  "hash_search [] = None"
| "hash_search (c # cs) =
     (case hash_at (c # cs) of Some h \<Rightarrow> Some h | None \<Rightarrow> hash_search cs)"

text \<open>\<^verbatim>\<open>url.rstrip('/').split('/')[-1]\<close>\<close>

definition final_segment :: "string \<Rightarrow> string" where
  "final_segment url = last (split_on CHR ''/'' (rstrip_chars ''/'' url))"

text \<open>
  \<^verbatim>\<open>
  def friendly_name_from_url(url):
      m = re.search(r'/package/([A-Fa-f0-9]+)\.zip(?:\?|$)', url)
      if m: return f"ota_{m.group(1)}.zip"
      tail = url.rstrip('/').split('/')[-1] or "update.zip"
      return tail if tail.endswith(".zip") else "update.zip"
  \<close>
\<close>

definition friendly_name_from_url :: "string \<Rightarrow> string" where
  "friendly_name_from_url url =
     (case hash_search url of
        Some h \<Rightarrow> ''ota_'' @ h @ ''.zip''
      | None \<Rightarrow>
          (let tail = (if final_segment url = [] then ''update.zip'' else final_segment url)
           in if ends_with ''.zip'' tail then tail else ''update.zip''))"

section \<open>The one-shot controller\<close>

text \<open>
  \<^verbatim>\<open>
  class OneShotController:
      def __init__(self):
          self.first_url = None
          self.hit_event = threading.Event()
      def on_new_url(self, url):
          url = sanitize_url(url)
          if not self.hit_event.is_set():
              self.first_url = url
              self.hit_event.set()
  \<close>
  \<open>hit_event\<close> is the flag of the event.
\<close>

record controller =
  first_url :: "string option"
  hit_event :: bool

definition new_controller :: controller where
  "new_controller = \<lparr>first_url = None, hit_event = False\<rparr>"

definition controller_on_new_url :: "controller \<Rightarrow> string \<Rightarrow> controller" where
  "controller_on_new_url c url =
     (if hit_event c then c
      else c\<lparr>first_url := Some (sanitize_url url), hit_event := True\<rparr>)"

text \<open>
  What \<^verbatim>\<open>cmd_oneshot\<close> gets from \<^verbatim>\<open>controller.hit_event.wait(timeout)\<close> and then
  \<^verbatim>\<open>controller.first_url\<close> when no notification arrives during the wait: a set event
  returns at once and the recorded field is read; an event that is not set gives the
  timeout branch.  Time itself is not modelled.
\<close>

datatype wait_outcome = Released "string option" | TimedOut

definition wait_for_first :: "controller \<Rightarrow> wait_outcome" where
  "wait_for_first c = (if hit_event c then Released (first_url c) else TimedOut)"

section \<open>The capture session\<close>

text \<open>
  A file opened for appending: the chunks written so far, and the environment's part,
  \<open>budget\<close>: \<open>None\<close> when every write succeeds, \<open>Some n\<close> when \<open>n\<close> more writes succeed and
  the one after them raises \<^verbatim>\<open>OSError\<close> (a full disk).  A write that raises ends the only
  thread that writes the file, so the first failure is the only one that can happen; what
  it leaves in the file plays no part, and the contents are kept as they were.
\<close>

record out_file =
  written :: "string list"
  budget :: "nat option"

text \<open>\<^verbatim>\<open>f.write(x); f.flush()\<close>: \<open>None\<close> when it raises.\<close>

definition file_write :: "out_file \<Rightarrow> string \<Rightarrow> out_file option" where
  "file_write f x =
     (case budget f of
        None \<Rightarrow> Some (f\<lparr>written := written f @ [x]\<rparr>)
      | Some 0 \<Rightarrow> None
      | Some (Suc n) \<Rightarrow> Some (f\<lparr>written := written f @ [x], budget := Some n\<rparr>))"

text \<open>
  The callback \<^verbatim>\<open>on_new_url\<close> is a function of the URL and of the state of the object
  behind it (\<open>listener\<close>); it returns or raises an \<^verbatim>\<open>Exception\<close>, and has changed its
  state either way.
\<close>

datatype 'c cb_result = CbReturned 'c | CbRaised 'c

text \<open>
  A thread is alive, has left its loop because the stop event was set, or has been ended
  by an exception nothing caught.  The external process is running, has been sent the
  termination signal and not exited yet, or has exited; \<^verbatim>\<open>poll()\<close> is \<^verbatim>\<open>None\<close> in the first
  two states.
\<close>

datatype thread_status = Alive | Finished | Crashed

datatype proc_status = ProcRunning | ProcTerminating | ProcExited

text \<open>
  \<^verbatim>\<open>class OtaCaptor\<close>: the fields of \<^verbatim>\<open>__init__\<close> (\<^verbatim>\<open>_seen\<close>, \<^verbatim>\<open>_queue\<close>, \<^verbatim>\<open>_stop\<close>, \<^verbatim>\<open>proc\<close>, the two
  files by their contents), the calls made to \<^verbatim>\<open>download_with_progress(url, name)\<close>, which
  catches its own exceptions, and the status of the two threads of \<^verbatim>\<open>start()\<close>.
\<close>

record 'c captor =
  auto_download :: bool
  on_new_url :: "(string \<Rightarrow> 'c \<Rightarrow> 'c cb_result) option"
  listener :: 'c
  seen :: "string set"
  queue :: "string list"
  stop_event :: bool
  proc :: "proc_status option"
  log_file :: out_file
  url_file :: out_file
  downloads :: "(string \<times> string) list"
  writer :: thread_status
  parser :: thread_status

text \<open>
  The session when \<^verbatim>\<open>start()\<close> has spawned the process and its two threads have opened
  their files.
\<close>

definition started_captor ::
  "bool \<Rightarrow> (string \<Rightarrow> 'c \<Rightarrow> 'c cb_result) option \<Rightarrow> 'c \<Rightarrow> nat option \<Rightarrow> nat option \<Rightarrow> 'c captor" where
  "started_captor auto cb l log_budget url_budget =
     \<lparr>auto_download = auto, on_new_url = cb, listener = l, seen = {}, queue = [],
      stop_event = False, proc = Some ProcRunning,
      log_file = \<lparr>written = [], budget = log_budget\<rparr>,
      url_file = \<lparr>written = [], budget = url_budget\<rparr>,
      downloads = [], writer = Alive, parser = Alive\<rparr>"

text \<open>
  \<^verbatim>\<open>
  if self.on_new_url:
      try: self.on_new_url(url)
      except Exception: pass
  \<close>
\<close>

definition notify :: "'c captor \<Rightarrow> string \<Rightarrow> 'c captor" where
  "notify s url =
     (case on_new_url s of
        None \<Rightarrow> s
      | Some cb \<Rightarrow>
          (case cb url (listener s) of
             CbReturned l \<Rightarrow> s\<lparr>listener := l\<rparr>
           | CbRaised l \<Rightarrow> s\<lparr>listener := l\<rparr>))"

text \<open>
  \<^verbatim>\<open>
  if self.auto_download:
      name = friendly_name_from_url(url)
      download_with_progress(url, name)
  \<close>
\<close>

definition auto_fetch :: "'c captor \<Rightarrow> string \<Rightarrow> 'c captor" where
  "auto_fetch s url =
     (if auto_download s
      then s\<lparr>downloads := downloads s @ [(url, friendly_name_from_url url)]\<rparr>
      else s)"

text \<open>
  One turn of the loop over the matches of a line:
  \<^verbatim>\<open>
  url = sanitize_url(m.group(1))
  if url not in self._seen:
      self._seen.add(url)
      outf.write(url + "\n"); outf.flush()
      ok(f"NEW OTA URL: {url}")
      if self.on_new_url: ...
      if self.auto_download: ...
  \<close>
  Nothing catches an exception of the write: it ends the thread, after the URL was added
  to the set and before the callback.  A thread that has ended does nothing more.
\<close>

definition handle_match :: "'c captor \<Rightarrow> string \<Rightarrow> 'c captor" where
  "handle_match s m =
     (if parser s = Alive
      then (if sanitize_url m \<in> seen s then s
            else (case file_write (url_file s) (sanitize_url m @ [CHR 0x0A]) of
                    None \<Rightarrow> s\<lparr>seen := insert (sanitize_url m) (seen s), parser := Crashed\<rparr>
                  | Some f \<Rightarrow>
                      auto_fetch
                        (notify (s\<lparr>seen := insert (sanitize_url m) (seen s), url_file := f\<rparr>)
                           (sanitize_url m))
                        (sanitize_url m)))
      else s)"

text \<open>\<^verbatim>\<open>for m in URL_REGEX.finditer(line): ...\<close>, and the same for a list of lines.\<close>

definition parse_line :: "'c captor \<Rightarrow> string \<Rightarrow> 'c captor" where
  "parse_line s line = foldl handle_match s (find_matches line)"

definition parse_lines :: "'c captor \<Rightarrow> string list \<Rightarrow> 'c captor" where
  "parse_lines s ls = foldl parse_line s ls"

text \<open>
  One turn of the loop of \<^verbatim>\<open>_parser_thread\<close>:
  \<^verbatim>\<open>
  while not self._stop.is_set():
      try: line = self._queue.get(timeout=0.2)
      except queue.Empty: continue
      self._queue.put(line)  # also let writer handle it
      for m in URL_REGEX.finditer(line): ...
  \<close>
\<close>

definition parser_step :: "'c captor \<Rightarrow> 'c captor" where
  "parser_step s =
     (if parser s = Alive
      then (if stop_event s then s\<lparr>parser := Finished\<rparr>
            else (case queue s of
                    [] \<Rightarrow> s
                  | line # q \<Rightarrow> parse_line (s\<lparr>queue := q @ [line]\<rparr>) line))
      else s)"

text \<open>
  One turn of the loop of \<^verbatim>\<open>_writer_thread\<close>:
  \<^verbatim>\<open>
  while not self._stop.is_set():
      try: line = self._queue.get(timeout=0.2)
      except queue.Empty: continue
      f.write(line); f.flush()
  \<close>
\<close>

definition writer_step :: "'c captor \<Rightarrow> 'c captor" where
  "writer_step s =
     (if writer s = Alive
      then (if stop_event s then s\<lparr>writer := Finished\<rparr>
            else (case queue s of
                    [] \<Rightarrow> s
                  | line # q \<Rightarrow>
                      (case file_write (log_file s) line of
                         None \<Rightarrow> s\<lparr>queue := q, writer := Crashed\<rparr>
                       | Some f \<Rightarrow> s\<lparr>queue := q, log_file := f\<rparr>)))
      else s)"

text \<open>
  \<^verbatim>\<open>
  def stop(self):
      if not self._stop.is_set(): self._stop.set()
      try:
          if self.proc and self.proc.poll() is None: self.proc.terminate()
      except Exception: pass
  \<close>
  in its two statements.  \<^verbatim>\<open>terminate()\<close> sends the signal; a process that was sent it
  already stays as it is.
\<close>

definition poll_is_none :: "proc_status \<Rightarrow> bool" where
  "poll_is_none p = (p \<noteq> ProcExited)"

fun terminate :: "proc_status \<Rightarrow> proc_status" where
  "terminate ProcRunning = ProcTerminating"
| "terminate ProcTerminating = ProcTerminating"
| "terminate ProcExited = ProcExited"

definition stop_set :: "'c captor \<Rightarrow> 'c captor" where
  "stop_set s = (if stop_event s then s else s\<lparr>stop_event := True\<rparr>)"

definition stop_terminate :: "'c captor \<Rightarrow> 'c captor" where
  "stop_terminate s =
     (case proc s of
        None \<Rightarrow> s
      | Some p \<Rightarrow> if poll_is_none p then s\<lparr>proc := Some (terminate p)\<rparr> else s)"

definition stop :: "'c captor \<Rightarrow> 'c captor" where
  "stop s = stop_terminate (stop_set s)"

text \<open>
  Calls of \<open>stop\<close> from several threads interleave their statements: a schedule of them
  is a list of \<open>stop_op\<close>.
\<close>

datatype stop_op = SetStopEvent | TerminateProc

fun stop_step :: "'c captor \<Rightarrow> stop_op \<Rightarrow> 'c captor" where
  "stop_step s SetStopEvent = stop_set s"
| "stop_step s TerminateProc = stop_terminate s"

text \<open>
  The reading loop of \<^verbatim>\<open>start()\<close> puts each line it reads on the queue while the process
  has not exited:
  \<^verbatim>\<open>
  while self.proc.poll() is None:
      b = self.proc.stdout.readline()
      ...
      self._queue.put(line)
  \<close>
\<close>

definition feed :: "'c captor \<Rightarrow> string \<Rightarrow> 'c captor" where
  "feed s line =
     (case proc s of
        None \<Rightarrow> s
      | Some p \<Rightarrow> if poll_is_none p then s\<lparr>queue := queue s @ [line]\<rparr> else s)"

text \<open>
  The threads of a session run interleaved.  A schedule is the list of their turns: the
  reading loop puts a line, the writer or the parser takes a turn of its loop, some
  thread calls \<open>stop\<close>, the process exits.  The operations of \<^verbatim>\<open>queue.Queue\<close> are atomic; a
  whole turn of a loop is taken as one step here, so every run of the model is a run of
  the program.
\<close>

datatype action = Feed string | WriterStep | ParserStep | Stop | ProcExit

fun step :: "'c captor \<Rightarrow> action \<Rightarrow> 'c captor" where
  "step s (Feed line) = feed s line"
| "step s WriterStep = writer_step s"
| "step s ParserStep = parser_step s"
| "step s Stop = stop s"
| "step s ProcExit = (case proc s of None \<Rightarrow> s | Some p \<Rightarrow> s\<lparr>proc := Some ProcExited\<rparr>)"

definition run :: "'c captor \<Rightarrow> action list \<Rightarrow> 'c captor" where
  "run s acts = foldl step s acts"

text \<open>A callback that records the URLs it is called with, and one that always raises.\<close>

definition recording_callback :: "string \<Rightarrow> string list \<Rightarrow> string list cb_result" where
  "recording_callback url l = CbReturned (l @ [url])"

definition raising_callback :: "string \<Rightarrow> string list \<Rightarrow> string list cb_result" where
  "raising_callback url l = CbRaised (l @ [url])"

text \<open>
  \<^verbatim>\<open>timeout = args.timeout if args.timeout > 0 else 300\<close> of \<^verbatim>\<open>cmd_oneshot\<close>: the wait is
  never called without a timeout.
\<close>

definition oneshot_timeout :: "int \<Rightarrow> int" where
  "oneshot_timeout t = (if 0 < t then t else 300)"

section \<open>Predicates of the statements\<close>

text \<open>
  Two sessions agree on everything but the callback and the state of the object behind
  it (whose type may differ).
\<close>

definition same_session :: "'c captor \<Rightarrow> 'd captor \<Rightarrow> bool" where
  "same_session s t \<longleftrightarrow>
     auto_download s = auto_download t \<and> seen s = seen t \<and> queue s = queue t \<and>
     stop_event s = stop_event t \<and> proc s = proc t \<and> log_file s = log_file t \<and>
     url_file s = url_file t \<and> downloads s = downloads t \<and> writer s = writer t \<and>
     parser s = parser t"

text \<open>
  What the parser thread keeps true of a session whose callback records its calls: the
  URL file, the calls of the callback and the downloads hold the same URLs in the same
  order, none twice, all of them in the set; the set holds nothing else unless a write
  has ended the thread.
\<close>

definition dedup_inv :: "string list captor \<Rightarrow> bool" where
  "dedup_inv s \<longleftrightarrow>
     on_new_url s = Some recording_callback \<and>
     written (url_file s) = map (\<lambda>u. u @ [CHR 0x0A]) (listener s) \<and>
     distinct (listener s) \<and>
     downloads s =
       (if auto_download s then map (\<lambda>u. (u, friendly_name_from_url u)) (listener s) else []) \<and>
     set (listener s) \<subseteq> seen s \<and>
     (if parser s = Crashed then True else seen s = set (listener s))"

text \<open>A session on which \<open>stop\<close> has nothing left to do.\<close>

definition stopped :: "'c captor \<Rightarrow> bool" where
  "stopped s \<longleftrightarrow> stop_event s \<and> proc s \<noteq> Some ProcRunning"

text \<open>The URL of the worked example.\<close>

abbreviation ota_example_url :: string where
  "ota_example_url \<equiv>
     ''https://android.googleapis.com/packages/ota-api/package/DEADBEEF01.zip?sig=abc''"

section \<open>Definitions to unfold when a concrete input is evaluated\<close>

lemmas matcher_defs = match_at_def match_scheme_def match_target_def match_package_def
  match_payload_def url_char_def is_space_def is_hex_def

lemmas sanitize_defs = sanitize_url_def strip_chars_def py_strip_def is_space_def

lemmas name_defs = friendly_name_from_url_def hash_at_def final_segment_def rstrip_chars_def
  ends_with_def is_hex_def

lemmas session_defs = run_def parse_lines_def parse_line_def parser_step_def writer_step_def
  feed_def stop_def stop_set_def stop_terminate_def poll_is_none_def handle_match_def
  notify_def auto_fetch_def file_write_def started_captor_def

section \<open>The derived file name\<close>

lemma ends_with_iff: "ends_with suf s \<longleftrightarrow> (\<exists>p. s = p @ suf)"
proof
  assume "ends_with suf s"
  then have le: "length suf \<le> length s" and d: "drop (length s - length suf) s = suf"
    by (auto simp: ends_with_def split: if_splits)
  have "s = take (length s - length suf) s @ drop (length s - length suf) s" by simp
  with d have "s = take (length s - length suf) s @ suf" by simp
  then show "\<exists>p. s = p @ suf" ..
next
  assume "\<exists>p. s = p @ suf"
  then obtain p where "s = p @ suf" ..
  then show "ends_with suf s" by (simp add: ends_with_def)
qed

lemma friendly_name_cases:
  "friendly_name_from_url url =
     (case hash_search url of
        Some h \<Rightarrow> ''ota_'' @ h @ ''.zip''
      | None \<Rightarrow> if ends_with ''.zip'' (final_segment url) then final_segment url else ''update.zip'')"
  by (simp add: friendly_name_from_url_def Let_def ends_with_def split: option.split)

lemma friendly_name_ends_zip: "ends_with ''.zip'' (friendly_name_from_url url)"
proof (cases "hash_search url")
  case None
  then show ?thesis by (simp add: friendly_name_cases) (simp add: ends_with_def)
next
  case (Some h)
  have "ends_with ''.zip'' ((''ota_'' @ h) @ ''.zip'')"
    unfolding ends_with_iff by blast
  with Some show ?thesis by (simp add: friendly_name_cases)
qed

lemma split_on_not_Nil: "split_on sep s \<noteq> []"
  by (induction s) (auto split: list.split)

lemma split_on_append:
  "split_on sep (p @ sep # w) = split_on sep p @ split_on sep w"
proof (induction p)
  case Nil
  show ?case by simp
next
  case (Cons c p)
  obtain y ys where "split_on sep p = y # ys"
    using split_on_not_Nil [of sep p] by (cases "split_on sep p") auto
  with Cons show ?case by simp
qed

lemma last_split_on_append:
  "last (split_on sep (p @ sep # w)) = last (split_on sep w)"
  by (simp add: split_on_append split_on_not_Nil)

lemma final_segment_payload_bin: "final_segment (p @ ''/payload.bin'') = ''payload.bin''"
proof -
  have "rstrip_chars ''/'' (p @ ''/payload.bin'') = p @ ''/payload.bin''"
    by (simp add: rstrip_chars_def)
  moreover have "last (split_on CHR ''/'' (p @ CHR ''/'' # ''payload.bin''))
      = last (split_on CHR ''/'' ''payload.bin'')"
    by (rule last_split_on_append)
  ultimately show ?thesis by (simp add: final_segment_def)
qed

lemma oneshot_timeout_positive: "0 < oneshot_timeout t"
  by (simp add: oneshot_timeout_def)

section \<open>The matcher stops at a character outside its class\<close>

lemma strip_prefix_Some: "strip_prefix p s = Some r \<longleftrightarrow> s = p @ r"
  by (induction p s rule: strip_prefix.induct) auto

lemma strip_prefix_delim:
  "d \<notin> set p \<Longrightarrow> strip_prefix p (a @ d # b) = map_option (\<lambda>r. r @ d # b) (strip_prefix p a)"
proof (induction p arbitrary: a)
  case Nil
  then show ?case by simp
next
  case (Cons x p)
  then show ?case by (cases a) auto
qed

lemma takeWhile_delim: "\<not> P d \<Longrightarrow> takeWhile P (a @ d # b) = takeWhile P a"
  by (induction a) auto

lemma dropWhile_delim: "\<not> P d \<Longrightarrow> dropWhile P (a @ d # b) = dropWhile P a @ d # b"
  by (induction a) auto

lemma delim_not_hex: "\<not> url_char d \<Longrightarrow> \<not> is_hex d"
  by (auto simp: url_char_def is_space_def is_hex_def split: if_splits)

lemma strip_prefix_literal:
  assumes "list_all url_char p" and "\<not> url_char d"
  shows "strip_prefix p (a @ d # b) = map_option (\<lambda>r. r @ d # b) (strip_prefix p a)"
proof -
  from assms have "d \<notin> set p" by (auto simp: list_all_iff)
  then show ?thesis by (rule strip_prefix_delim)
qed

lemma literals_url_char:
  "list_all url_char ''http''" "list_all url_char ''s://''" "list_all url_char ''://''"
  "list_all url_char ''packages/ota-api/package/''" "list_all url_char ''.zip''"
  "list_all url_char ''payload.''" "list_all url_char ''bin''" "list_all url_char ''zip''"
  by (simp_all add: url_char_def is_space_def)

lemmas strip_prefix_literals = literals_url_char [THEN strip_prefix_literal]

lemma match_scheme_delim:
  assumes "\<not> url_char d"
  shows "match_scheme (a @ d # b) = map_option (\<lambda>(m, r). (m, r @ d # b)) (match_scheme a)"
  using assms by (simp add: match_scheme_def strip_prefix_literals split: option.split)

lemma match_package_delim:
  assumes "\<not> url_char d"
  shows "match_package (a @ d # b) = map_option (\<lambda>(m, r). (m, r @ d # b)) (match_package a)"
  using assms delim_not_hex [OF assms]
  by (simp add: match_package_def strip_prefix_literals takeWhile_delim dropWhile_delim
      split: option.split)

lemma match_payload_delim:
  assumes "\<not> url_char d"
  shows "match_payload (a @ d # b) = map_option (\<lambda>(m, r). (m, r @ d # b)) (match_payload a)"
  using assms by (simp add: match_payload_def strip_prefix_literals split: option.split)

lemma match_target_delim:
  assumes "\<not> url_char d"
  shows "match_target (a @ d # b) = map_option (\<lambda>(m, r). (m, r @ d # b)) (match_target a)"
  by (simp add: match_target_def match_package_delim [OF assms] match_payload_delim [OF assms]
      split: option.split)

lemma match_target_Nil: "match_target [] = None"
  by (simp add: match_target_def match_package_def match_payload_def)

lemma lazy_then_target_delim:
  assumes "\<not> url_char d"
  shows "lazy_then_target (a @ d # b) = map_option (\<lambda>(m, r). (m, r @ d # b)) (lazy_then_target a)"
proof (induction a)
  case Nil
  have "match_target (d # b) = None"
    using match_target_delim [OF assms, of "[]" b] by (simp add: match_target_Nil)
  with assms show ?case by (simp add: match_target_Nil)
next
  case (Cons c a)
  have "match_target (c # a @ d # b) = map_option (\<lambda>(m, r). (m, r @ d # b)) (match_target (c # a))"
    using match_target_delim [OF assms, of "c # a" b] by simp
  with Cons show ?case by (auto split: option.split)
qed

lemma match_query_delim:
  assumes "\<not> url_char d"
  shows "match_query (t @ d # b) = match_query t"
proof (cases t)
  case Nil
  from assms have "d \<noteq> CHR ''?''" by (auto simp: url_char_def is_space_def)
  with Nil show ?thesis by simp
next
  case (Cons c cs)
  with assms show ?thesis by (simp add: takeWhile_delim)
qed

lemma match_at_delim:
  assumes "\<not> url_char d"
  shows "match_at (a @ d # b) = match_at a"
  by (auto simp: match_at_def match_scheme_delim [OF assms] lazy_then_target_delim [OF assms]
      match_query_delim [OF assms] split: option.split)

lemma match_scheme_Some: "match_scheme s = Some (m, r) \<Longrightarrow> s = m @ r \<and> m \<noteq> []"
  by (auto simp: match_scheme_def strip_prefix_Some split: option.splits)

lemma match_package_Some:
  assumes "match_package s = Some (m, r)"
  shows "s = m @ r"
proof -
  from assms obtain x where s: "s = ''packages/ota-api/package/'' @ x"
    and d: "dropWhile is_hex x = ''.zip'' @ r"
    and m: "m = ''packages/ota-api/package/'' @ takeWhile is_hex x @ ''.zip''"
    by (auto simp: match_package_def strip_prefix_Some split: option.splits if_splits)
  have "x = takeWhile is_hex x @ dropWhile is_hex x" by simp
  with d have "x = takeWhile is_hex x @ ''.zip'' @ r" by simp
  with s m show ?thesis by simp
qed

lemma match_payload_Some: "match_payload s = Some (m, r) \<Longrightarrow> s = m @ r"
  by (auto simp: match_payload_def strip_prefix_Some split: option.splits)

lemma match_target_Some: "match_target s = Some (m, r) \<Longrightarrow> s = m @ r"
  by (auto simp: match_target_def split: option.splits
      dest: match_package_Some match_payload_Some)

lemma lazy_then_target_Some: "lazy_then_target s = Some (m, r) \<Longrightarrow> s = m @ r"
proof (induction s arbitrary: m)
  case Nil
  then show ?case by (simp add: match_target_Nil)
next
  case (Cons c s)
  then show ?case
    by (auto split: option.splits if_splits dest: match_target_Some)
qed

lemma match_query_prefix: "\<exists>u. t = match_query t @ u"
proof (cases t)
  case Nil
  then show ?thesis by simp
next
  case (Cons c cs)
  have "cs = takeWhile url_char cs @ dropWhile url_char cs" by simp
  then have "\<exists>u. cs = takeWhile url_char cs @ u" ..
  with Cons show ?thesis by simp
qed

lemma match_at_Some:
  assumes "match_at s = Some m"
  shows "m \<noteq> [] \<and> (\<exists>u. s = m @ u)"
proof -
  from assms obtain sch r x t where
    1: "match_scheme s = Some (sch, r)" and 2: "lazy_then_target r = Some (x, t)"
    and m: "m = sch @ x @ match_query t"
    by (auto simp: match_at_def split: option.splits)
  from 1 have s: "s = sch @ r" and ne: "sch \<noteq> []" by (auto dest: match_scheme_Some)
  from 2 have r: "r = x @ t" by (rule lazy_then_target_Some)
  obtain u where t: "t = match_query t @ u" using match_query_prefix by blast
  have "s = m @ u" using s r t m by simp
  with ne m show ?thesis by blast
qed

lemma find_matches_delim:
  assumes "\<not> url_char d"
  shows "find_matches (a @ d # b) = find_matches a @ find_matches b"
proof (induction a rule: find_matches.induct)
  case 1
  have "match_at (d # b) = None"
    using match_at_delim [OF assms, of "[]" b] by (simp add: match_at_def match_scheme_def)
  then show ?case by simp
next
  case (2 c cs)
  have at: "match_at (c # cs @ d # b) = match_at (c # cs)"
    using match_at_delim [OF assms, of "c # cs" b] by simp
  show ?case
  proof (cases "match_at (c # cs)")
    case None
    with 2 at show ?thesis by simp
  next
    case (Some m)
    then obtain u where "m \<noteq> []" and "c # cs = m @ u"
      using match_at_Some by blast
    then have "length m - 1 \<le> length cs"
      by (cases m) auto
    then have "drop (length m - 1) (cs @ d # b) = drop (length m - 1) cs @ d # b"
      by simp
    with 2(2) [OF Some] Some at show ?thesis by simp
  qed
qed

lemma find_matches_example: "find_matches ota_example_url = [ota_example_url]"
  by (simp add: match_at_def match_scheme_def match_target_def match_package_def
      match_payload_def url_char_def is_space_def is_hex_def)

lemma sanitize_example: "sanitize_url ota_example_url = ota_example_url"
  by (simp add: sanitize_url_def strip_chars_def py_strip_def is_space_def)

lemma friendly_example: "friendly_name_from_url ota_example_url = ''ota_DEADBEEF01.zip''"
  by (simp add: friendly_name_from_url_def hash_at_def is_hex_def)

lemma py_strip_clean:
  assumes "s \<noteq> []" and "\<not> is_space (hd s)" and "\<not> is_space (last s)"
  shows "py_strip s = s"
proof -
  from assms(1,2) have 1: "dropWhile is_space s = s" by (cases s) simp_all
  from assms(1,3) have "dropWhile is_space (rev s) = rev s"
    by (cases "rev s") (simp_all add: last_rev [symmetric] hd_rev)
  with 1 show ?thesis by (simp add: py_strip_def)
qed

lemma strip_chars_trailing:
  assumes "s \<noteq> []" and "hd s \<notin> set cs" and "last s \<notin> set cs" and "set t \<subseteq> set cs"
  shows "strip_chars cs (s @ t) = s"
proof -
  from assms(1,2) have 1: "dropWhile (\<lambda>c. c \<in> set cs) (s @ t) = s @ t" by (cases s) simp_all
  from assms(4) have "dropWhile (\<lambda>c. c \<in> set cs) (rev t @ rev s) = dropWhile (\<lambda>c. c \<in> set cs) (rev s)"
    by (intro dropWhile_append2) auto
  moreover from assms(1,3) have "dropWhile (\<lambda>c. c \<in> set cs) (rev s) = rev s"
    by (cases "rev s") (simp_all add: hd_rev)
  ultimately show ?thesis using 1 by (simp add: strip_chars_def)
qed

lemma sanitize_example_trailing:
  assumes "set t \<subseteq> set [CHR '']'', CHR 0x27, CHR 0x22]"
  shows "sanitize_url (ota_example_url @ t) = ota_example_url"
proof -
  have ns: "\<not> is_space (last (ota_example_url @ t))"
  proof (cases "t = []")
    case True
    then show ?thesis by (simp add: is_space_def)
  next
    case False
    then have "last t \<in> set t" by simp
    with assms have "last t \<in> set [CHR '']'', CHR 0x27, CHR 0x22]" by blast
    then have "\<not> is_space (last t)" by (auto simp: is_space_def)
    with False show ?thesis by simp
  qed
  have "py_strip (ota_example_url @ t) = ota_example_url @ t"
    by (rule py_strip_clean) (use ns in \<open>simp_all add: is_space_def\<close>)
  moreover have "strip_chars [CHR '']'', CHR 0x27, CHR 0x22] (ota_example_url @ t) = ota_example_url"
    by (rule strip_chars_trailing) (use assms in simp_all)
  ultimately show ?thesis by (simp add: sanitize_url_def)
qed

lemma find_matches_token:
  assumes "\<not> url_char w" and "\<not> url_char v" and "find_matches u = [u]"
  shows "find_matches (u @ w # rest) = u # find_matches rest"
    and "find_matches (before @ v # u @ w # rest) = find_matches before @ u # find_matches rest"
proof -
  show 1: "find_matches (u @ w # rest) = u # find_matches rest"
    by (simp add: find_matches_delim [OF assms(1)] assms(3))
  show "find_matches (before @ v # u @ w # rest) = find_matches before @ u # find_matches rest"
    by (simp add: find_matches_delim [OF assms(2), of before] 1)
qed

section \<open>The callback has no part in the session\<close>

lemma same_session_notify: "same_session s t \<Longrightarrow> same_session (notify s u) (notify t v)"
  by (auto simp: same_session_def notify_def split: option.splits cb_result.splits)

lemma same_session_auto_fetch:
  "same_session s t \<Longrightarrow> same_session (auto_fetch s u) (auto_fetch t u)"
  by (auto simp: same_session_def auto_fetch_def)

lemma same_session_handle_match:
  assumes "same_session s t"
  shows "same_session (handle_match s m) (handle_match t m)"
proof -
  let ?u = "sanitize_url m"
  from assms have eq: "parser s = parser t" "seen s = seen t" "url_file s = url_file t"
    by (simp_all add: same_session_def)
  show ?thesis
  proof (cases "parser s = Alive \<and> ?u \<notin> seen s")
    case False
    with assms eq show ?thesis by (auto simp: handle_match_def)
  next
    case True
    show ?thesis
    proof (cases "file_write (url_file s) (?u @ [CHR 0x0A])")
      case None
      with True eq assms show ?thesis by (simp add: handle_match_def same_session_def)
    next
      case (Some f)
      from assms have "same_session (s\<lparr>seen := insert ?u (seen s), url_file := f\<rparr>)
          (t\<lparr>seen := insert ?u (seen t), url_file := f\<rparr>)"
        by (simp add: same_session_def)
      then have "same_session
          (auto_fetch (notify (s\<lparr>seen := insert ?u (seen s), url_file := f\<rparr>) ?u) ?u)
          (auto_fetch (notify (t\<lparr>seen := insert ?u (seen t), url_file := f\<rparr>) ?u) ?u)"
        by (intro same_session_auto_fetch same_session_notify)
      with True eq Some show ?thesis by (simp add: handle_match_def)
    qed
  qed
qed

lemma same_session_matches:
  "same_session s t \<Longrightarrow> same_session (foldl handle_match s ms) (foldl handle_match t ms)"
  by (induction ms arbitrary: s t) (auto intro: same_session_handle_match)

lemma same_session_parse_line:
  "same_session s t \<Longrightarrow> same_session (parse_line s line) (parse_line t line)"
  by (simp add: parse_line_def same_session_matches)

lemma same_session_parser_step:
  assumes "same_session s t"
  shows "same_session (parser_step s) (parser_step t)"
proof -
  from assms have eq: "parser s = parser t" "stop_event s = stop_event t" "queue s = queue t"
    by (simp_all add: same_session_def)
  show ?thesis
  proof (cases "parser s = Alive \<and> \<not> stop_event s")
    case False
    with assms eq show ?thesis by (auto simp: parser_step_def same_session_def)
  next
    case True
    show ?thesis
    proof (cases "queue s")
      case Nil
      with True eq assms show ?thesis by (simp add: parser_step_def)
    next
      case (Cons line q)
      from assms have "same_session (s\<lparr>queue := q @ [line]\<rparr>) (t\<lparr>queue := q @ [line]\<rparr>)"
        by (simp add: same_session_def)
      then have "same_session (parse_line (s\<lparr>queue := q @ [line]\<rparr>) line)
          (parse_line (t\<lparr>queue := q @ [line]\<rparr>) line)"
        by (rule same_session_parse_line)
      moreover from Cons eq have "queue t = line # q" by simp
      ultimately show ?thesis using True eq(1,2) Cons by (simp add: parser_step_def)
    qed
  qed
qed

lemma same_session_writer_step:
  "same_session s t \<Longrightarrow> same_session (writer_step s) (writer_step t)"
  by (auto simp: same_session_def writer_step_def split: list.splits option.splits)

lemma same_session_stop: "same_session s t \<Longrightarrow> same_session (stop s) (stop t)"
  by (auto simp: same_session_def stop_def stop_set_def stop_terminate_def split: option.splits)

lemma same_session_feed: "same_session s t \<Longrightarrow> same_session (feed s l) (feed t l)"
  by (auto simp: same_session_def feed_def split: option.splits)

lemma same_session_step: "same_session s t \<Longrightarrow> same_session (step s a) (step t a)"
proof (cases a)
  case ProcExit
  assume "same_session s t"
  with ProcExit show ?thesis by (auto simp: same_session_def split: option.splits)
qed (simp_all add: same_session_feed same_session_writer_step same_session_parser_step
       same_session_stop)

lemma same_session_run: "same_session s t \<Longrightarrow> same_session (run s acts) (run t acts)"
  unfolding run_def by (induction acts arbitrary: s t) (auto intro: same_session_step)

section \<open>What the parser thread keeps true\<close>

lemma notify_fields [simp]:
  "seen (notify s u) = seen s" "url_file (notify s u) = url_file s"
  "downloads (notify s u) = downloads s" "parser (notify s u) = parser s"
  "auto_download (notify s u) = auto_download s" "on_new_url (notify s u) = on_new_url s"
  "stop_event (notify s u) = stop_event s" "proc (notify s u) = proc s"
  by (simp_all add: notify_def split: option.split cb_result.split)

lemma notify_recording:
  "on_new_url s = Some recording_callback \<Longrightarrow> listener (notify s u) = listener s @ [u]"
  by (simp add: notify_def recording_callback_def)

lemma auto_fetch_fields [simp]:
  "seen (auto_fetch s u) = seen s" "url_file (auto_fetch s u) = url_file s"
  "listener (auto_fetch s u) = listener s" "parser (auto_fetch s u) = parser s"
  "auto_download (auto_fetch s u) = auto_download s" "on_new_url (auto_fetch s u) = on_new_url s"
  "stop_event (auto_fetch s u) = stop_event s" "proc (auto_fetch s u) = proc s"
  by (simp_all add: auto_fetch_def)

lemma file_write_written: "file_write f x = Some g \<Longrightarrow> written g = written f @ [x]"
  by (auto simp: file_write_def split: option.splits nat.splits)

lemma dedup_inv_started:
  "dedup_inv (started_captor auto (Some recording_callback) [] lb ub)"
  by (simp add: dedup_inv_def started_captor_def)

lemma dedup_inv_handle_match:
  assumes "dedup_inv s"
  shows "dedup_inv (handle_match s m)"
proof -
  let ?u = "sanitize_url m"
  show ?thesis
  proof (cases "parser s = Alive \<and> ?u \<notin> seen s")
    case False
    with assms show ?thesis by (auto simp: handle_match_def)
  next
    case True
    with assms have fresh: "?u \<notin> set (listener s)" and eq: "seen s = set (listener s)"
      by (auto simp: dedup_inv_def)
    show ?thesis
    proof (cases "file_write (url_file s) (?u @ [CHR 0x0A])")
      case None
      with True have "handle_match s m = s\<lparr>seen := insert ?u (seen s), parser := Crashed\<rparr>"
        by (simp add: handle_match_def)
      with assms show ?thesis by (auto simp: dedup_inv_def)
    next
      case (Some f)
      let ?t = "s\<lparr>seen := insert ?u (seen s), url_file := f\<rparr>"
      from True Some have h: "handle_match s m = auto_fetch (notify ?t ?u) ?u"
        by (simp add: handle_match_def)
      from assms have cb: "on_new_url ?t = Some recording_callback"
        by (simp add: dedup_inv_def)
      have l: "listener (handle_match s m) = listener s @ [?u]"
        using notify_recording [OF cb, of ?u] by (simp add: h)
      have w: "written (url_file (handle_match s m)) = written (url_file s) @ [?u @ [CHR 0x0A]]"
        using file_write_written [OF Some] by (simp add: h)
      have d: "downloads (handle_match s m) =
          (if auto_download s then downloads s @ [(?u, friendly_name_from_url ?u)] else downloads s)"
        by (simp add: h auto_fetch_def)
      have o: "on_new_url (handle_match s m) = on_new_url s" "seen (handle_match s m) = insert ?u (seen s)"
        "parser (handle_match s m) = parser s" "auto_download (handle_match s m) = auto_download s"
        by (simp_all add: h)
      from assms fresh eq show ?thesis
        by (simp add: dedup_inv_def l w d o)
    qed
  qed
qed

lemma dedup_inv_matches: "dedup_inv s \<Longrightarrow> dedup_inv (foldl handle_match s ms)"
  by (induction ms arbitrary: s) (auto intro: dedup_inv_handle_match)

lemma dedup_inv_parse_line: "dedup_inv s \<Longrightarrow> dedup_inv (parse_line s line)"
  by (simp add: parse_line_def dedup_inv_matches)







lemma count_list_distinct: "distinct xs \<Longrightarrow> count_list xs x = (if x \<in> set xs then 1 else 0)"
  by (induction xs) auto

lemma count_list_map_inj: "inj f \<Longrightarrow> count_list (map f xs) (f x) = count_list xs x"
  by (induction xs) (auto dest: injD)

lemma inj_add_newline: "inj (\<lambda>u. u @ [CHR 0x0A])"
  by (rule injI) simp

lemma handle_match_frame [simp]:
  "auto_download (handle_match s m) = auto_download s"
  "stop_event (handle_match s m) = stop_event s" "proc (handle_match s m) = proc s"
  by (simp_all add: handle_match_def split: option.split)

lemma matches_frame [simp]:
  "auto_download (foldl handle_match s ms) = auto_download s"
  "stop_event (foldl handle_match s ms) = stop_event s"
  "proc (foldl handle_match s ms) = proc s"
  by (induction ms arbitrary: s) simp_all

lemma parse_line_frame [simp]:
  "auto_download (parse_line s line) = auto_download s"
  "stop_event (parse_line s line) = stop_event s" "proc (parse_line s line) = proc s"
  by (simp_all add: parse_line_def)

lemma parse_lines_frame [simp]:
  "auto_download (parse_lines s ls) = auto_download s"
  "stop_event (parse_lines s ls) = stop_event s" "proc (parse_lines s ls) = proc s"
  unfolding parse_lines_def by (induction ls arbitrary: s) simp_all

lemma dedup_inv_counts:
  assumes "dedup_inv s" and "parser s \<noteq> Crashed"
  shows "count_list (listener s) u = (if u \<in> seen s then 1 else 0)"
    and "count_list (written (url_file s)) (u @ [CHR 0x0A]) = (if u \<in> seen s then 1 else 0)"
    and "count_list (map fst (downloads s)) u = (if auto_download s \<and> u \<in> seen s then 1 else 0)"
proof -
  from assms have d: "distinct (listener s)" and e: "seen s = set (listener s)"
    and w: "written (url_file s) = map (\<lambda>u. u @ [CHR 0x0A]) (listener s)"
    and dl: "downloads s =
       (if auto_download s then map (\<lambda>u. (u, friendly_name_from_url u)) (listener s) else [])"
    by (simp_all add: dedup_inv_def)
  show 1: "count_list (listener s) u = (if u \<in> seen s then 1 else 0)"
    using count_list_distinct [OF d, of u] e by simp
  show "count_list (written (url_file s)) (u @ [CHR 0x0A]) = (if u \<in> seen s then 1 else 0)"
    using count_list_map_inj [OF inj_add_newline, of "listener s" u] w 1 by simp
  show "count_list (map fst (downloads s)) u = (if auto_download s \<and> u \<in> seen s then 1 else 0)"
    using dl 1 by (simp add: comp_def)
qed

lemma matches_not_alive: "parser s \<noteq> Alive \<Longrightarrow> foldl handle_match s ms = s"
  by (induction ms) (simp_all add: handle_match_def)

lemma parse_lines_not_alive: "parser s \<noteq> Alive \<Longrightarrow> parse_lines s ls = s"
  unfolding parse_lines_def by (induction ls) (simp_all add: parse_line_def matches_not_alive)

lemma dedup_inv_step: "dedup_inv s \<Longrightarrow> dedup_inv (step s a)"
proof (cases a)
  case (Feed l)
  assume "dedup_inv s"
  then show ?thesis using Feed by (auto simp: dedup_inv_def feed_def split: option.splits)
next
  case WriterStep
  assume "dedup_inv s"
  then show ?thesis using WriterStep
    by (auto simp: dedup_inv_def writer_step_def split: list.splits option.splits)
next
  case ParserStep
  assume inv: "dedup_inv s"
  show ?thesis
  proof (cases "parser s = Alive \<and> \<not> stop_event s")
    case False
    with inv ParserStep show ?thesis by (auto simp: parser_step_def dedup_inv_def)
  next
    case True
    show ?thesis
    proof (cases "queue s")
      case Nil
      with True inv ParserStep show ?thesis by (simp add: parser_step_def)
    next
      case (Cons l q)
      from inv have "dedup_inv (s\<lparr>queue := q @ [l]\<rparr>)" by (simp add: dedup_inv_def)
      then have "dedup_inv (parse_line (s\<lparr>queue := q @ [l]\<rparr>) l)" by (rule dedup_inv_parse_line)
      with True Cons ParserStep show ?thesis by (simp add: parser_step_def)
    qed
  qed
next
  case Stop
  assume "dedup_inv s"
  then show ?thesis using Stop
    by (auto simp: dedup_inv_def stop_def stop_set_def stop_terminate_def split: option.splits)
next
  case ProcExit
  assume "dedup_inv s"
  then show ?thesis using ProcExit by (auto simp: dedup_inv_def split: option.splits)
qed

lemma dedup_inv_run: "dedup_inv s \<Longrightarrow> dedup_inv (run s acts)"
  unfolding run_def by (induction acts arbitrary: s) (simp_all add: dedup_inv_step)

section \<open>Stopping\<close>

lemma stop_set_idem: "stop_set (stop_set s) = stop_set s"
  by (simp add: stop_set_def)

lemma stop_terminate_idem: "stop_terminate (stop_terminate s) = stop_terminate s"
proof (cases "proc s")
  case None
  then show ?thesis by (simp add: stop_terminate_def)
next
  case (Some p)
  then show ?thesis by (cases p) (simp_all add: stop_terminate_def poll_is_none_def)
qed

lemma stop_commute: "stop_set (stop_terminate s) = stop_terminate (stop_set s)"
  by (simp add: stop_set_def stop_terminate_def split: option.split)

lemma stop_idem: "stop (stop s) = stop s"
  by (simp add: stop_def stop_commute stop_set_idem stop_terminate_idem)

lemma stop_absorbs: "stop (stop_step s x) = stop s"
proof (cases x)
  case SetStopEvent
  then show ?thesis by (simp add: stop_def stop_set_idem)
next
  case TerminateProc
  then show ?thesis
    by (simp add: stop_def stop_commute [symmetric] stop_terminate_idem)
qed

lemma stop_step_set_commute: "stop_step (stop_set s) x = stop_set (stop_step s x)"
  by (cases x) (simp_all add: stop_commute)

lemma stop_step_terminate_commute: "stop_step (stop_terminate s) x = stop_terminate (stop_step s x)"
  by (cases x) (simp_all add: stop_commute)

lemma stop_steps_set: "foldl stop_step (stop_set s) ops = stop_set (foldl stop_step s ops)"
  by (induction ops arbitrary: s) (simp_all add: stop_step_set_commute)

lemma stop_steps_terminate:
  "foldl stop_step (stop_terminate s) ops = stop_terminate (foldl stop_step s ops)"
  by (induction ops arbitrary: s) (simp_all add: stop_step_terminate_commute)

lemma stop_steps_set_absorbed:
  "SetStopEvent \<in> set ops \<Longrightarrow> stop_set (foldl stop_step s ops) = foldl stop_step s ops"
proof (induction ops arbitrary: s)
  case Nil
  then show ?case by simp
next
  case (Cons x ops)
  show ?case
  proof (cases "x = SetStopEvent")
    case True
    then show ?thesis by (simp add: stop_steps_set stop_set_idem)
  next
    case False
    with Cons show ?thesis by simp
  qed
qed

lemma stop_steps_terminate_absorbed:
  "TerminateProc \<in> set ops \<Longrightarrow> stop_terminate (foldl stop_step s ops) = foldl stop_step s ops"
proof (induction ops arbitrary: s)
  case Nil
  then show ?case by simp
next
  case (Cons x ops)
  show ?case
  proof (cases "x = TerminateProc")
    case True
    then show ?thesis by (simp add: stop_steps_terminate stop_terminate_idem)
  next
    case False
    with Cons show ?thesis by simp
  qed
qed

lemma stop_after_steps: "stop (foldl stop_step s ops) = stop s"
  by (induction ops arbitrary: s) (simp_all add: stop_absorbs)

lemma stop_steps_interleaved:
  assumes "SetStopEvent \<in> set ops" and "TerminateProc \<in> set ops"
  shows "foldl stop_step s ops = stop s"
proof -
  have "stop (foldl stop_step s ops) = foldl stop_step s ops"
    by (simp add: stop_def stop_steps_set_absorbed [OF assms(1)]
        stop_steps_terminate_absorbed [OF assms(2)])
  then show ?thesis by (simp add: stop_after_steps)
qed

lemma stopped_stop: "stopped (stop s)"
proof (cases "proc s")
  case None
  then show ?thesis by (simp add: stopped_def stop_def stop_set_def stop_terminate_def)
next
  case (Some p)
  then show ?thesis
    by (cases p) (simp_all add: stopped_def stop_def stop_set_def stop_terminate_def poll_is_none_def)
qed

lemma stop_stopped: "stopped s \<Longrightarrow> stop s = s"
proof (cases "proc s")
  case None
  assume "stopped s"
  with None show ?thesis by (simp add: stopped_def stop_def stop_set_def stop_terminate_def)
next
  case (Some p)
  assume "stopped s"
  with Some show ?thesis
    by (cases p) (simp_all add: stopped_def stop_def stop_set_def stop_terminate_def poll_is_none_def)
qed

lemma stopped_step: "stopped s \<Longrightarrow> stopped (step s a)"
proof (cases a)
  case (Feed l)
  assume "stopped s"
  with Feed show ?thesis by (auto simp: stopped_def feed_def split: option.splits)
next
  case WriterStep
  assume "stopped s"
  with WriterStep show ?thesis
    by (auto simp: stopped_def writer_step_def split: list.splits option.splits)
next
  case ParserStep
  assume "stopped s"
  with ParserStep show ?thesis
    by (auto simp: stopped_def parser_step_def split: list.splits)
next
  case Stop
  then show ?thesis by (simp add: stopped_stop)
next
  case ProcExit
  assume "stopped s"
  with ProcExit show ?thesis by (auto simp: stopped_def split: option.splits)
qed

lemma stopped_run: "stopped s \<Longrightarrow> stopped (run s acts)"
  unfolding run_def by (induction acts arbitrary: s) (simp_all add: stopped_step)

lemma controller_released_fixed: "hit_event c \<Longrightarrow> foldl controller_on_new_url c us = c"
  by (induction us) (simp_all add: controller_on_new_url_def)

lemma run_dedup_counts:
  assumes "s = run (started_captor auto (Some recording_callback) [] lb ub) acts"
    and "parser s \<noteq> Crashed"
  shows "count_list (listener s) u = (if u \<in> seen s then 1 else 0)"
    and "count_list (written (url_file s)) (u @ [CHR 0x0A]) = (if u \<in> seen s then 1 else 0)"
proof -
  have "dedup_inv s"
    unfolding assms(1) by (intro dedup_inv_run dedup_inv_started)
  from dedup_inv_counts(1,2) [OF this assms(2)]
  show "count_list (listener s) u = (if u \<in> seen s then 1 else 0)"
    and "count_list (written (url_file s)) (u @ [CHR 0x0A]) = (if u \<in> seen s then 1 else 0)"
    by simp_all
qed

section \<open>The claims\<close>

subsection \<open>The raw log\<close>

text \<open>
  Claim C1: the raw log, read back after the session stops, holds exactly the lines fed
  to the queue, in arrival order, none missing and none twice.

  The code does not keep this.  The writer and the parser take their lines from the same
  queue and the parser puts each line it took back at the end (\<^verbatim>\<open># also let writer handle
  it\<close>).  Two lines are fed; the parser takes the first and puts it back behind the
  second; the writer then writes the second line before the first.  In the other run the
  session is stopped while the second line is still on the queue: the writer leaves its
  loop and the line is never written.
\<close>

theorem raw_log_not_in_arrival_order:
  "written (log_file (run (started_captor False None () None None)
      [Feed ''line 1'', Feed ''line 2'', ParserStep, WriterStep, WriterStep, Stop]))
     = [''line 2'', ''line 1'']
   \<and> written (log_file (run (started_captor False None () None None)
      [Feed ''line 1'', Feed ''line 2'', WriterStep, Stop, WriterStep, WriterStep]))
     = [''line 1'']"
  by (simp add: session_defs matcher_defs)

subsection \<open>Deduplication\<close>



subsection \<open>A payload URL without a hash\<close>

text \<open>
  Claim C3: for a URL with no hash segment whose final path segment is
  \<^verbatim>\<open>payload.bin\<close> the derived name is \<^verbatim>\<open>payload.bin\<close>.

  The code gives \<^verbatim>\<open>update.zip\<close> there: a final segment is kept only when it ends in
  \<^verbatim>\<open>.zip\<close>.  First the claim refuted at one URL, then what holds instead.
\<close>

theorem payload_bin_counterexample:
  "hash_search ''https://h.example/ota/payload.bin'' = None
   \<and> final_segment ''https://h.example/ota/payload.bin'' = ''payload.bin''
   \<and> friendly_name_from_url ''https://h.example/ota/payload.bin'' \<noteq> ''payload.bin''"
  by (simp add: name_defs)

text \<open>
  Claim C3, amended: for every URL in which the hash pattern is not found and whose final
  segment is \<^verbatim>\<open>payload.bin\<close>, the derived name is \<^verbatim>\<open>update.zip\<close>.
\<close>

theorem payload_bin_named_update_zip:
  assumes "hash_search url = None" and "final_segment url = ''payload.bin''"
  shows "friendly_name_from_url url = ''update.zip''"
  using assms by (simp add: friendly_name_cases ends_with_def)

theorem payload_bin_named_update_zip_witness:
  "hash_search ''https://h.example/ota/payload.bin'' = None
   \<and> final_segment ''https://h.example/ota/payload.bin'' = ''payload.bin''
   \<and> friendly_name_from_url ''https://h.example/ota/payload.bin'' = ''update.zip''"
proof -
  have 1: "hash_search ''https://h.example/ota/payload.bin'' = None"
    and 2: "final_segment ''https://h.example/ota/payload.bin'' = ''payload.bin''"
    by (simp_all add: name_defs)
  from payload_bin_named_update_zip [OF 1 2] 1 2 show ?thesis by simp
qed

subsection \<open>A write to the URL file that fails\<close>

text \<open>
  Claim C4: when appending a new match to the URL file fails, the callback is still
  invoked for the match and later lines are still handled.

  In the code nothing catches the exception of the write.  With a URL file that takes no
  write, the first line's match reaches neither the callback nor the download, the
  parser thread has ended, and the match of the second line is not handled either.
\<close>

theorem sink_failure_counterexample:
  "file_write (url_file (started_captor True (Some recording_callback) [] None (Some 0)))
       (''http://h/payload.bin'' @ [CHR 0x0A]) = None
   \<and> find_matches ''see http://h/payload.bin now'' = [''http://h/payload.bin'']
   \<and> find_matches ''see http://h/payload.zip now'' = [''http://h/payload.zip'']
   \<and> listener (parse_lines (started_captor True (Some recording_callback) [] None (Some 0))
        [''see http://h/payload.bin now'', ''see http://h/payload.zip now'']) = []
   \<and> downloads (parse_lines (started_captor True (Some recording_callback) [] None (Some 0))
        [''see http://h/payload.bin now'', ''see http://h/payload.zip now'']) = []
   \<and> parser (parse_lines (started_captor True (Some recording_callback) [] None (Some 0))
        [''see http://h/payload.bin now'', ''see http://h/payload.zip now'']) = Crashed"
  by (simp add: session_defs matcher_defs sanitize_defs)

text \<open>
  Claim C4, amended: when the write of a new match to the URL file fails, the match has
  been added to the set of seen URLs, the callback is not invoked and no download is
  started for it, and the parser thread has ended: it handles no later line and takes
  nothing more from the queue.
\<close>

theorem sink_failure_ends_parser:
  assumes "parser s = Alive" and "sanitize_url m \<notin> seen s"
    and "file_write (url_file s) (sanitize_url m @ [CHR 0x0A]) = None"
  shows "handle_match s m = s\<lparr>seen := insert (sanitize_url m) (seen s), parser := Crashed\<rparr>
       \<and> listener (handle_match s m) = listener s
       \<and> downloads (handle_match s m) = downloads s
       \<and> parse_lines (handle_match s m) ls = handle_match s m
       \<and> parser_step (handle_match s m) = handle_match s m"
proof -
  from assms have h: "handle_match s m = s\<lparr>seen := insert (sanitize_url m) (seen s), parser := Crashed\<rparr>"
    by (simp add: handle_match_def)
  then have c: "parser (handle_match s m) \<noteq> Alive" by simp
  from c have "parse_lines (handle_match s m) ls = handle_match s m"
    by (rule parse_lines_not_alive)
  moreover from c have "parser_step (handle_match s m) = handle_match s m"
    by (simp add: parser_step_def)
  ultimately show ?thesis using h by simp
qed

theorem sink_failure_ends_parser_witness:
  "handle_match (started_captor True (Some recording_callback) [] None (Some 0)) ''http://h/payload.bin''
     = (started_captor True (Some recording_callback) [] None (Some 0))
         \<lparr>seen := {''http://h/payload.bin''}, parser := Crashed\<rparr>
   \<and> parse_lines (handle_match (started_captor True (Some recording_callback) [] None (Some 0))
        ''http://h/payload.bin'') [''see http://h/payload.zip now'']
     = handle_match (started_captor True (Some recording_callback) [] None (Some 0)) ''http://h/payload.bin''"
proof -
  let ?s = "started_captor True (Some recording_callback) [] None (Some 0) :: string list captor"
  have san: "sanitize_url ''http://h/payload.bin'' = ''http://h/payload.bin''"
    by (simp add: sanitize_defs)
  have 1: "parser ?s = Alive" and 2: "sanitize_url ''http://h/payload.bin'' \<notin> seen ?s"
    and 3: "file_write (url_file ?s) (sanitize_url ''http://h/payload.bin'' @ [CHR 0x0A]) = None"
    by (simp_all add: started_captor_def file_write_def)
  note th = sink_failure_ends_parser [OF 1 2 3, of "[''see http://h/payload.zip now'']"]
  have h: "handle_match ?s ''http://h/payload.bin'' = ?s\<lparr>seen := {''http://h/payload.bin''}, parser := Crashed\<rparr>"
    using th [THEN conjunct1] san by (simp add: started_captor_def)
  note p = th [THEN conjunct2, THEN conjunct2, THEN conjunct2, THEN conjunct1]
  from h p show ?thesis by (intro conjI)
qed

subsection \<open>The worked example\<close>

text \<open>
  Claim C5: in a line that holds the example URL followed by whitespace the matcher finds
  exactly that URL, at the start of the line or after whitespace, and goes on with the
  rest of the line; canonicalising it keeps the query string and strips stray closing
  brackets and quotes after it; the derived name is \<^verbatim>\<open>ota_DEADBEEF01.zip\<close>.
\<close>

theorem ota_example_matched:
  assumes "is_space w" and "is_space v"
  shows "find_matches (ota_example_url @ w # rest) = ota_example_url # find_matches rest
       \<and> find_matches (before @ v # ota_example_url @ w # rest)
           = find_matches before @ ota_example_url # find_matches rest
       \<and> (set t \<subseteq> set [CHR '']'', CHR 0x27, CHR 0x22] \<longrightarrow>
            sanitize_url (ota_example_url @ t) = ota_example_url)
       \<and> sanitize_url ota_example_url = ota_example_url
       \<and> friendly_name_from_url (sanitize_url ota_example_url) = ''ota_DEADBEEF01.zip''"
proof -
  from assms have d: "\<not> url_char w" "\<not> url_char v" by (simp_all add: url_char_def)
  note 1 = find_matches_token(1) [OF d find_matches_example, of rest]
  note 2 = find_matches_token(2) [OF d find_matches_example, of before rest]
  have 3: "set t \<subseteq> set [CHR '']'', CHR 0x27, CHR 0x22] \<longrightarrow>
      sanitize_url (ota_example_url @ t) = ota_example_url"
    by (rule impI) (rule sanitize_example_trailing)
  have 4: "sanitize_url ota_example_url = ota_example_url"
    by (rule sanitize_example)
  have 5: "friendly_name_from_url (sanitize_url ota_example_url) = ''ota_DEADBEEF01.zip''"
    unfolding 4 by (rule friendly_example)
  from 1 2 3 4 5 show ?thesis by (intro conjI)
qed

theorem ota_example_matched_witness:
  "is_space CHR '' ''
   \<and> is_space CHR 0x0A
   \<and> find_matches (''url='' @ CHR '' '' # ota_example_url @ CHR 0x0A # ''done'') = [ota_example_url]
   \<and> sanitize_url (ota_example_url @ [CHR 0x22, CHR '']'']) = ota_example_url
   \<and> friendly_name_from_url (sanitize_url ota_example_url) = ''ota_DEADBEEF01.zip''"
proof -
  have sp: "is_space CHR '' ''" and nl: "is_space CHR 0x0A" by (simp_all add: is_space_def)
  have e: "find_matches ''url='' = []" "find_matches ''done'' = []"
    by (simp_all add: matcher_defs)
  note th = ota_example_matched [OF nl sp, of "''done''" "''url=''" "[CHR 0x22, CHR '']'']"]
  have a: "find_matches (''url='' @ CHR '' '' # ota_example_url @ CHR 0x0A # ''done'') = [ota_example_url]"
    unfolding th [THEN conjunct2, THEN conjunct1] e by simp
  have b: "sanitize_url (ota_example_url @ [CHR 0x22, CHR '']'']) = ota_example_url"
    by (rule th [THEN conjunct2, THEN conjunct2, THEN conjunct1, THEN mp]) simp
  note c = th [THEN conjunct2, THEN conjunct2, THEN conjunct2, THEN conjunct2]
  from sp nl a b c show ?thesis by (intro conjI)
qed

subsection \<open>The latch of the one-shot controller\<close>

text \<open>
  Claim C6: the latch is written once.  After the first notification \<open>u\<close> of any sequence
  the controller holds the canonical form of \<open>u\<close> and the event is set; whatever
  notifications \<open>us\<close> follow, and one more \<open>v\<close> after them, leave it as it is; a wait on it
  returns at once with the recorded match.
\<close>

theorem latch_write_once:
  "foldl controller_on_new_url new_controller (u # us)
     = \<lparr>first_url = Some (sanitize_url u), hit_event = True\<rparr>
   \<and> controller_on_new_url (foldl controller_on_new_url new_controller (u # us)) v
     = foldl controller_on_new_url new_controller (u # us)
   \<and> wait_for_first (foldl controller_on_new_url new_controller (u # us))
     = Released (Some (sanitize_url u))"
proof -
  have 1: "controller_on_new_url new_controller u = \<lparr>first_url = Some (sanitize_url u), hit_event = True\<rparr>"
    by (simp add: controller_on_new_url_def new_controller_def)
  then have "hit_event (controller_on_new_url new_controller u)" by simp
  then have "foldl controller_on_new_url (controller_on_new_url new_controller u) us
      = controller_on_new_url new_controller u"
    by (rule controller_released_fixed)
  with 1 show ?thesis by (simp add: controller_on_new_url_def wait_for_first_def)
qed

theorem latch_write_once_witness:
  "foldl controller_on_new_url new_controller [''  http://h/payload.bin]'', ''http://h/payload.zip'']
     = \<lparr>first_url = Some ''http://h/payload.bin'', hit_event = True\<rparr>"
  using latch_write_once [of "''  http://h/payload.bin]''" "[''http://h/payload.zip'']"]
  by (simp add: sanitize_defs)

subsection \<open>A callback that raises\<close>

text \<open>
  Claim C7: an exception of the callback is swallowed and stops nothing.  The call that
  raises leaves the session as it was but for the state of the object behind the
  callback, and the parser thread goes on; and through every schedule the session agrees,
  in its set of seen URLs, its queue, its two files, its downloads and its threads, with
  any session \<open>t\<close> that started the same, whatever callback \<open>t\<close> has.
\<close>

theorem callback_failure_swallowed:
  assumes "on_new_url s = Some cb" and "cb url (listener s) = CbRaised l"
    and "same_session s t"
  shows "notify s url = s\<lparr>listener := l\<rparr>
       \<and> parser (notify s url) = parser s
       \<and> same_session (run s acts) (run t acts)"
  using assms by (simp add: notify_def same_session_run)

theorem callback_failure_swallowed_witness:
  "notify (started_captor True (Some raising_callback) [] None None) ''http://h/payload.bin''
     = (started_captor True (Some raising_callback) [] None None)\<lparr>listener := [''http://h/payload.bin'']\<rparr>
   \<and> same_session
        (run (started_captor True (Some raising_callback) [] None None)
           [Feed ''a http://h/payload.bin b'', Feed ''c http://h/payload.zip d'', ParserStep, ParserStep])
        (run (started_captor True None () None None)
           [Feed ''a http://h/payload.bin b'', Feed ''c http://h/payload.zip d'', ParserStep, ParserStep])
   \<and> written (url_file (run (started_captor True None () None None)
           [Feed ''a http://h/payload.bin b'', Feed ''c http://h/payload.zip d'', ParserStep, ParserStep]))
      = [''http://h/payload.bin'' @ [CHR 0x0A], ''http://h/payload.zip'' @ [CHR 0x0A]]"
proof -
  let ?s = "started_captor True (Some raising_callback) [] None None :: string list captor"
  let ?t = "started_captor True None () None None :: unit captor"
  have 1: "on_new_url ?s = Some raising_callback" by (simp add: started_captor_def)
  have 2: "raising_callback ''http://h/payload.bin'' (listener ?s) = CbRaised [''http://h/payload.bin'']"
    by (simp add: started_captor_def raising_callback_def)
  have 3: "same_session ?s ?t" by (simp add: same_session_def started_captor_def)
  have fm: "find_matches ''a http://h/payload.bin b'' = [''http://h/payload.bin'']"
    "find_matches ''c http://h/payload.zip d'' = [''http://h/payload.zip'']"
    by (simp_all add: matcher_defs)
  have san: "sanitize_url ''http://h/payload.bin'' = ''http://h/payload.bin''"
    "sanitize_url ''http://h/payload.zip'' = ''http://h/payload.zip''"
    by (simp_all add: sanitize_defs)
  have 4: "written (url_file (run ?t
           [Feed ''a http://h/payload.bin b'', Feed ''c http://h/payload.zip d'', ParserStep, ParserStep]))
      = [''http://h/payload.bin'' @ [CHR 0x0A], ''http://h/payload.zip'' @ [CHR 0x0A]]"
    by (simp add: run_def feed_def parser_step_def poll_is_none_def parse_line_def fm
        handle_match_def san file_write_def started_captor_def notify_def auto_fetch_def
        del: find_matches.simps)
  note th = callback_failure_swallowed [OF 1 2 3]
  from th [THEN conjunct1] th [THEN conjunct2, THEN conjunct2] 4 show ?thesis
    by (intro conjI)
qed

subsection \<open>Stopping twice\<close>

text \<open>
  Claim C9: \<open>stop\<close> is idempotent.  A second call right after the first changes nothing;
  the stop event is set; a later call changes nothing either, whatever the threads did
  in between; and every interleaving of the statements of several calls ends in the
  state that one call gives.
\<close>

theorem stop_idempotent:
  "stop (stop s) = stop s
   \<and> stop_event (stop s)
   \<and> stop (run (stop s) acts) = run (stop s) acts
   \<and> (SetStopEvent \<in> set ops \<and> TerminateProc \<in> set ops \<longrightarrow> foldl stop_step s ops = stop s)"
proof -
  have "stopped (run (stop s) acts)" by (intro stopped_run stopped_stop)
  then have "stop (run (stop s) acts) = run (stop s) acts" by (rule stop_stopped)
  moreover have "stop_event (stop s)" using stopped_stop [of s] by (simp add: stopped_def)
  ultimately show ?thesis by (simp add: stop_idem stop_steps_interleaved)
qed

theorem stop_idempotent_witness:
  "stop (stop (started_captor False None () None None)) = stop (started_captor False None () None None)
   \<and> proc (stop (started_captor False None () None None)) = Some ProcTerminating
   \<and> foldl stop_step (started_captor False None () None None)
        [SetStopEvent, SetStopEvent, TerminateProc, TerminateProc]
      = stop (started_captor False None () None None)"
  using stop_idempotent [of "started_captor False None () None None" "[]"
      "[SetStopEvent, SetStopEvent, TerminateProc, TerminateProc]"]
  by (simp add: session_defs)

subsection \<open>Every derived name ends in .zip\<close>

text \<open>
  Claim C10: for every URL the derived name ends in \<^verbatim>\<open>.zip\<close>: it is \<^verbatim>\<open>ota_<hash>.zip\<close> when
  the hash pattern is found, the final segment when that ends in \<^verbatim>\<open>.zip\<close>, and
  \<^verbatim>\<open>update.zip\<close> otherwise; it is never \<^verbatim>\<open>payload.bin\<close>.
\<close>

theorem derive_filename_zip:
  "(\<exists>p. friendly_name_from_url url = p @ ''.zip'')
   \<and> (case hash_search url of
        Some h \<Rightarrow> friendly_name_from_url url = ''ota_'' @ h @ ''.zip''
      | None \<Rightarrow> friendly_name_from_url url =
          (if ends_with ''.zip'' (final_segment url) then final_segment url else ''update.zip''))
   \<and> friendly_name_from_url url \<noteq> ''payload.bin''"
proof -
  have z: "\<exists>p. friendly_name_from_url url = p @ ''.zip''"
    using friendly_name_ends_zip [of url] by (simp only: ends_with_iff)
  have ne: "friendly_name_from_url url \<noteq> ''payload.bin''"
  proof
    assume "friendly_name_from_url url = ''payload.bin''"
    with friendly_name_ends_zip [of url] have "ends_with ''.zip'' ''payload.bin''" by simp
    then show False by (simp add: ends_with_def)
  qed
  have c: "case hash_search url of
        Some h \<Rightarrow> friendly_name_from_url url = ''ota_'' @ h @ ''.zip''
      | None \<Rightarrow> friendly_name_from_url url =
          (if ends_with ''.zip'' (final_segment url) then final_segment url else ''update.zip'')"
    by (simp add: friendly_name_cases split: option.split)
  from z c ne show ?thesis by blast
qed

theorem derive_filename_zip_witness:
  "friendly_name_from_url ''https://h.example/package/0aF9.zip?x=1'' = ''ota_0aF9.zip''
   \<and> friendly_name_from_url ''https://h.example/ota/full.zip'' = ''full.zip''
   \<and> friendly_name_from_url ''https://h.example/ota/payload.bin'' = ''update.zip''"
proof -
  have "hash_search ''https://h.example/package/0aF9.zip?x=1'' = Some ''0aF9''"
    "hash_search ''https://h.example/ota/full.zip'' = None"
    "hash_search ''https://h.example/ota/payload.bin'' = None"
    "final_segment ''https://h.example/ota/full.zip'' = ''full.zip''"
    "final_segment ''https://h.example/ota/payload.bin'' = ''payload.bin''"
    by (simp_all add: name_defs)
  with derive_filename_zip [of "''https://h.example/package/0aF9.zip?x=1''"]
    derive_filename_zip [of "''https://h.example/ota/full.zip''"]
    derive_filename_zip [of "''https://h.example/ota/payload.bin''"]
  show ?thesis by (simp add: ends_with_def)
qed

end
